theory Spec2Isabelle
  imports Complex_Main
begin

text \<open>
  A model of the Gem Puzzle code: the puzzle state and its constructor, equality and hash
  (\<open>utils/gem_puzzle.py\<close>), the successor generator, once on values and once on a store of
  objects, the solvability check and the Manhattan distance (\<open>utils/dataset_creation.py\<close>),
  and the test harness (\<open>tests/lab_test.py\<close>). A function that can raise returns a sum, the
  exception on the left.
\<close>

section \<open>Python values and exceptions\<close>

text \<open>
  Exceptions of the Python runtime that the modelled functions can raise. Every exception
  except \<open>KeyboardInterrupt\<close> is an instance of Python's class \<open>Exception\<close>.
\<close>

datatype py_exception =
    ValueError string
  | TypeError
  | AttributeError
  | ZeroDivisionError
  | KeyError
  | IndexError
  | RuntimeError string
  | KeyboardInterrupt


text \<open>
  \<open>int(len(tile_list) ** 0.5)\<close> and \<open>int(math.sqrt(len(tile_list)))\<close>: the integer part of
  the square root. The floating-point computation is modelled by the exact integer square
  root.
\<close>

primrec isqrt :: "nat \<Rightarrow> nat" where
  "isqrt 0 = 0"
| "isqrt (Suc n) = (let r = isqrt n in if Suc r * Suc r \<le> Suc n then Suc r else r)"

text \<open>\<open>str(i)\<close> of an integer: its decimal numeral.\<close>

definition digit_char :: "nat \<Rightarrow> char" where
  "digit_char d = ''0123456789'' ! d"

fun str_nat :: "nat \<Rightarrow> string" where
  "str_nat n = (if n < 10 then [digit_char n] else str_nat (n div 10) @ [digit_char (n mod 10)])"

definition str_int :: "int \<Rightarrow> string" where
  "str_int i = (if i < 0 then CHR ''-'' # str_nat (nat (- i)) else str_nat (nat i))"

text \<open>
  \<open>xs.index(v)\<close>: the first index holding \<open>v\<close>; when there is none, \<open>ValueError\<close> with
  the message that names the value.
\<close>

primrec first_index :: "int list \<Rightarrow> int \<Rightarrow> nat option" where
  "first_index [] v = None"
| "first_index (x # xs) v = (if x = v then Some 0 else map_option Suc (first_index xs v))"

definition py_index :: "int list \<Rightarrow> int \<Rightarrow> py_exception + int" where
  "py_index xs v =
     (case first_index xs v of
        None \<Rightarrow> Inl (ValueError (str_int v @ '' is not in list''))
      | Some i \<Rightarrow> Inr (int i))"

section \<open>GemPuzzleState\<close>

text \<open>
  The attributes of a \<open>GemPuzzleState\<close> object. \<open>size\<close> and \<open>blank_pos\<close> may hold Python's
  \<open>None\<close>; \<open>tile_list = None\<close> stands for an object that has no attribute \<open>tile_list\<close>.
\<close>

record GemPuzzleState =
  size_st :: "int option"
  tile_list :: "int list option"
  blank_pos :: "int option"

definition msg_square :: string where
  "msg_square = ''Tile list size should be a perfect square.''"

definition msg_blank :: string where
  "msg_blank = ''State should contain max value indicating the blank tile'' @ [CHR 0x27] @ ''s position.''"

definition GemPuzzleState_init :: "int list option \<Rightarrow> py_exception + GemPuzzleState" where
  "GemPuzzleState_init arg =
     (case arg of
        None \<Rightarrow> Inr \<lparr>size_st = None, tile_list = None, blank_pos = None\<rparr>
      | Some xs \<Rightarrow>
          (let sz = int (isqrt (length xs)) in
           if int (length xs) \<noteq> sz ^ 2 then Inl (ValueError msg_square)
           else
             (let blank_value = sz ^ 2 in
              case (if blank_value \<in> set xs then py_index xs blank_value else Inr (- 1)) of
                Inl e \<Rightarrow> Inl e
              | Inr bp \<Rightarrow>
                  if bp = - 1 then Inl (ValueError msg_blank)
                  else Inr \<lparr>size_st = Some sz, tile_list = Some xs, blank_pos = Some bp\<rparr>)))"

section \<open>Successor generation\<close>

text \<open>
  \<open>xs[i]\<close> and \<open>xs[i] = v\<close> on a Python list: a negative index counts from the end, an
  index out of range raises \<open>IndexError\<close>.
\<close>

definition py_norm_index :: "nat \<Rightarrow> int \<Rightarrow> int option" where
  "py_norm_index len i =
     (if 0 \<le> i \<and> i < int len then Some i
      else if i < 0 \<and> - int len \<le> i then Some (int len + i)
      else None)"

definition py_getitem :: "int list \<Rightarrow> int \<Rightarrow> py_exception + int" where
  "py_getitem xs i =
     (case py_norm_index (length xs) i of
        None \<Rightarrow> Inl IndexError
      | Some j \<Rightarrow> Inr (xs ! nat j))"

definition py_setitem :: "int list \<Rightarrow> int \<Rightarrow> int \<Rightarrow> py_exception + int list" where
  "py_setitem xs i v =
     (case py_norm_index (length xs) i of
        None \<Rightarrow> Inl IndexError
      | Some j \<Rightarrow> Inr (xs[nat j := v]))"

definition delta :: "(int \<times> int) list" where
  "delta = [(0, 1), (1, 0), (0, - 1), (- 1, 0)]"

text \<open>
  One iteration of the loop of \<open>get_successors\<close>: \<open>Inr None\<close> when the move leaves the
  field, \<open>Inr (Some new_state)\<close> when it is kept. \<open>//\<close> and \<open>%\<close> raise \<open>TypeError\<close> on
  \<open>None\<close> and \<open>ZeroDivisionError\<close> on a zero divisor; reading \<open>state.tile_list\<close> raises
  \<open>AttributeError\<close> when the attribute was never set.
\<close>

definition move_blank :: "GemPuzzleState \<Rightarrow> int \<times> int \<Rightarrow> py_exception + GemPuzzleState option" where
  "move_blank state d =
     (case d of (dx, dy) \<Rightarrow>
       (case (blank_pos state, size_st state) of
          (Some bp, Some sz) \<Rightarrow>
            if sz = 0 then Inl ZeroDivisionError
            else
              (let row = bp div sz + dx; col = bp mod sz + dy in
               if 0 \<le> row \<and> row < sz \<and> 0 \<le> col \<and> col < sz then
                 (case tile_list state of
                    None \<Rightarrow> Inl AttributeError
                  | Some xs \<Rightarrow>
                      (let new_bp = row * sz + col in
                       case py_getitem xs new_bp of
                         Inl e \<Rightarrow> Inl e
                       | Inr t \<Rightarrow>
                           (case py_setitem xs bp t of
                              Inl e \<Rightarrow> Inl e
                            | Inr ys \<Rightarrow>
                                (case py_setitem ys new_bp (sz ^ 2) of
                                   Inl e \<Rightarrow> Inl e
                                 | Inr zs \<Rightarrow>
                                     Inr (Some \<lparr>size_st = Some sz, tile_list = Some zs,
                                                blank_pos = Some new_bp\<rparr>)))))
               else Inr None)
        | _ \<Rightarrow> Inl TypeError))"

fun successors_loop ::
  "GemPuzzleState \<Rightarrow> (int \<times> int) list \<Rightarrow> GemPuzzleState list \<Rightarrow> py_exception + GemPuzzleState list"
where
  "successors_loop state [] successors = Inr successors"
| "successors_loop state (d # ds) successors =
     (case move_blank state d of
        Inl e \<Rightarrow> Inl e
      | Inr None \<Rightarrow> successors_loop state ds successors
      | Inr (Some new_state) \<Rightarrow> successors_loop state ds (successors @ [new_state]))"

definition get_successors :: "GemPuzzleState \<Rightarrow> py_exception + GemPuzzleState list" where
  "get_successors state = successors_loop state delta []"

section \<open>Valid states and moves\<close>

text \<open>
  The invariants of a puzzle state: \<open>size \<ge> 2\<close>, the tiles are a permutation of
  \<open>1..size*size\<close>, and \<open>blank_pos\<close> is the index of the blank \<open>size*size\<close>.
\<close>

definition valid_state :: "GemPuzzleState \<Rightarrow> bool" where
  "valid_state st =
     (case (size_st st, tile_list st, blank_pos st) of
        (Some n, Some xs, Some b) \<Rightarrow>
          2 \<le> n \<and> distinct xs \<and> set xs = {1..n * n} \<and> 0 \<le> b \<and> b < n * n \<and> xs ! nat b = n * n
      | _ \<Rightarrow> False)"

text \<open>Board positions \<open>p\<close> and \<open>q\<close> of an \<open>n \<times> n\<close> field are neighbours in a row or a column.\<close>

definition adjacent :: "int \<Rightarrow> int \<Rightarrow> int \<Rightarrow> bool" where
  "adjacent n p q =
     ((p div n = q div n \<and> \<bar>p mod n - q mod n\<bar> = 1) \<or>
      (p mod n = q mod n \<and> \<bar>p div n - q div n\<bar> = 1))"

definition swap_at :: "int list \<Rightarrow> nat \<Rightarrow> nat \<Rightarrow> int list" where
  "swap_at xs i j = xs[i := xs ! j, j := xs ! i]"

text \<open>
  State \<open>s\<close> is state \<open>st\<close> after one swap of the blank with the tile at an adjacent
  position, which becomes the blank position of \<open>s\<close>.
\<close>

definition blank_move :: "GemPuzzleState \<Rightarrow> GemPuzzleState \<Rightarrow> bool" where
  "blank_move st s =
     (case (size_st st, tile_list st, blank_pos st, blank_pos s) of
        (Some n, Some xs, Some b, Some d) \<Rightarrow>
          0 \<le> d \<and> d < n * n \<and> adjacent n b d \<and> size_st s = Some n \<and>
          tile_list s = Some (swap_at xs (nat b) (nat d))
      | _ \<Rightarrow> False)"

text \<open>A coordinate on the border of the field.\<close>

definition on_border :: "int \<Rightarrow> int \<Rightarrow> bool" where
  "on_border n x = (x = 0 \<or> x = n - 1)"

text \<open>
  For a blank at position \<open>b\<close> of an \<open>n \<times> n\<close> field and an offset \<open>(dx, dy)\<close>: whether the
  moved blank stays in the field, and the position it moves to.
\<close>

definition in_field :: "int \<Rightarrow> int \<Rightarrow> int \<times> int \<Rightarrow> bool" where
  "in_field n b d =
     (case d of (dx, dy) \<Rightarrow>
        0 \<le> b div n + dx \<and> b div n + dx < n \<and> 0 \<le> b mod n + dy \<and> b mod n + dy < n)"

definition move_target :: "int \<Rightarrow> int \<Rightarrow> int \<times> int \<Rightarrow> int" where
  "move_target n b d = (case d of (dx, dy) \<Rightarrow> (b div n + dx) * n + (b mod n + dy))"

definition moved_state :: "int \<Rightarrow> int list \<Rightarrow> int \<Rightarrow> int \<times> int \<Rightarrow> GemPuzzleState" where
  "moved_state n xs b d =
     \<lparr>size_st = Some n,
      tile_list = Some (swap_at xs (nat b) (nat (move_target n b d))),
      blank_pos = Some (move_target n b d)\<rparr>"

section \<open>Equality and hash\<close>

text \<open>
  \<open>str(self.tile_list)\<close>: the decimal numerals of the tiles, separated by a comma and a
  space, in square brackets.
\<close>

fun join_items :: "string list \<Rightarrow> string" where
  "join_items [] = []"
| "join_items [s] = s"
| "join_items (s # t # ss) = s @ '', '' @ join_items (t # ss)"

definition str_list :: "int list \<Rightarrow> string" where
  "str_list xs = ''['' @ join_items (map str_int xs) @ '']''"

text \<open>
  \<open>__hash__\<close> and \<open>__eq__\<close>. Python's hash of a string is the parameter \<open>hash_str\<close>;
  reading \<open>tile_list\<close> from a state that never got one raises \<open>AttributeError\<close>.
\<close>

definition GemPuzzleState_hash :: "(string \<Rightarrow> int) \<Rightarrow> GemPuzzleState \<Rightarrow> py_exception + int" where
  "GemPuzzleState_hash hash_str self =
     (case tile_list self of
        None \<Rightarrow> Inl AttributeError
      | Some xs \<Rightarrow> Inr (hash_str (str_list xs)))"

definition GemPuzzleState_eq ::
  "(string \<Rightarrow> int) \<Rightarrow> GemPuzzleState \<Rightarrow> GemPuzzleState \<Rightarrow> py_exception + bool" where
  "GemPuzzleState_eq hash_str self other =
     (case GemPuzzleState_hash hash_str self of
        Inl e \<Rightarrow> Inl e
      | Inr h1 \<Rightarrow>
          (case GemPuzzleState_hash hash_str other of
             Inl e \<Rightarrow> Inl e
           | Inr h2 \<Rightarrow>
               if h1 = h2 then
                 (case (tile_list self, tile_list other) of
                    (Some xs, Some ys) \<Rightarrow> Inr (xs = ys)
                  | _ \<Rightarrow> Inl AttributeError)
               else Inr False))"

section \<open>Solvability check\<close>

text \<open>
  The two nested loops of \<open>is_solvable\<close> over \<open>puzzle_except_empty\<close>, a list of pairs
  (index, tile). The inner loop runs over the slice \<open>puzzle_except_empty[idx + 1:]\<close>, the
  entries after the current one.
\<close>

fun count_smaller :: "int \<Rightarrow> (nat \<times> int) list \<Rightarrow> int \<Rightarrow> int" where
  "count_smaller tile [] inversions = inversions"
| "count_smaller tile ((j, next_tile) # rest) inversions =
     count_smaller tile rest (if next_tile < tile then inversions + 1 else inversions)"

fun count_inversions :: "(nat \<times> int) list \<Rightarrow> int \<Rightarrow> int" where
  "count_inversions [] inversions = inversions"
| "count_inversions ((i, tile) # rest) inversions =
     count_inversions rest (count_smaller tile rest inversions)"

definition puzzle_except_empty :: "int list \<Rightarrow> (nat \<times> int) list" where
  "puzzle_except_empty tiles =
     filter (\<lambda>p. snd p \<noteq> int (length tiles)) (List.enumerate 0 tiles)"

definition is_solvable :: "int list \<Rightarrow> py_exception + bool" where
  "is_solvable tiles =
     (let inversions = count_inversions (puzzle_except_empty tiles) 0;
          sz = int (isqrt (length tiles))
      in if sz mod 2 \<noteq> 0 \<and> inversions mod 2 = 0 then Inr True
         else if sz mod 2 = 0 then
           (case py_index tiles (int (length tiles)) of
              Inl e \<Rightarrow> Inl e
            | Inr i \<Rightarrow>
                if sz = 0 then Inl ZeroDivisionError
                else
                  (let empty_row = sz - i div sz
                   in Inr ((empty_row mod 2 \<noteq> 0) = (inversions mod 2 = 0))))
         else Inr False)"

text \<open>
  The inversion count as the specification words it: over the sequence with the blank
  removed, the number of pairs of positions \<open>i < j\<close> with \<open>tile[j] < tile[i]\<close>.
\<close>

definition blank_free :: "int list \<Rightarrow> int list" where
  "blank_free tiles = filter (\<lambda>v. v \<noteq> int (length tiles)) tiles"

definition spec_inversions :: "int list \<Rightarrow> nat" where
  "spec_inversions ys = (\<Sum>j<length ys. \<Sum>i<j. if ys ! j < ys ! i then 1 else 0)"

text \<open>The canonical goal ordering \<open>1, 2, ..., n*n\<close>, as \<open>list(range(1, n*n + 1))\<close>.\<close>

definition goal_tiles :: "nat \<Rightarrow> int list" where
  "goal_tiles n = map int [1..<Suc (n * n)]"

text \<open>The number of later, smaller entries, summed over the list.\<close>

primrec later_smaller :: "int list \<Rightarrow> nat" where
  "later_smaller [] = 0"
| "later_smaller (x # ys) = length (filter (\<lambda>y. y < x) ys) + later_smaller ys"

section \<open>Manhattan distance\<close>

text \<open>
  The dictionary comprehension of \<open>manhattan_distance\<close>: from each tile of the second state
  other than the blank value to its position; a later entry for the same tile replaces an
  earlier one.
\<close>

fun build_positions :: "(nat \<times> int) list \<Rightarrow> int \<Rightarrow> (int \<rightharpoonup> nat) \<Rightarrow> (int \<rightharpoonup> nat)" where
  "build_positions [] blank_value positions = positions"
| "build_positions ((pos2, tile) # rest) blank_value positions =
     build_positions rest blank_value
       (if tile \<noteq> blank_value then positions(tile \<mapsto> pos2) else positions)"

text \<open>
  The loop over the first state's tiles. \<open>positions[tile]\<close> raises \<open>KeyError\<close> for a tile
  the dictionary lacks; \<open>//\<close> and \<open>%\<close> raise \<open>TypeError\<close> when \<open>size\<close> is \<open>None\<close> and
  \<open>ZeroDivisionError\<close> when it is zero.
\<close>

fun distance_loop ::
  "(nat \<times> int) list \<Rightarrow> int option \<Rightarrow> int \<Rightarrow> (int \<rightharpoonup> nat) \<Rightarrow> int \<Rightarrow> py_exception + int"
where
  "distance_loop [] sz blank_value positions dist_sum = Inr dist_sum"
| "distance_loop ((pos1, tile) # rest) sz blank_value positions dist_sum =
     (if tile \<noteq> blank_value then
        (case positions tile of
           None \<Rightarrow> Inl KeyError
         | Some pos2 \<Rightarrow>
             (case sz of
                None \<Rightarrow> Inl TypeError
              | Some n \<Rightarrow>
                  if n = 0 then Inl ZeroDivisionError
                  else
                    (let di = \<bar>int pos1 div n - int pos2 div n\<bar>;
                         dj = \<bar>int pos1 mod n - int pos2 mod n\<bar>
                     in distance_loop rest sz blank_value positions (dist_sum + (di + dj)))))
      else distance_loop rest sz blank_value positions dist_sum)"

definition manhattan_distance :: "GemPuzzleState \<Rightarrow> GemPuzzleState \<Rightarrow> py_exception + int" where
  "manhattan_distance state1 state2 =
     (case tile_list state1 of
        None \<Rightarrow> Inl AttributeError
      | Some tiles1 \<Rightarrow>
          (case tile_list state2 of
             None \<Rightarrow> Inl AttributeError
           | Some tiles2 \<Rightarrow>
               (let blank_value = int (length tiles1);
                    positions = build_positions (List.enumerate 0 tiles2) blank_value Map.empty
                in distance_loop (List.enumerate 0 tiles1) (size_st state1) blank_value positions 0)))"

text \<open>
  The position of tile \<open>t\<close> in \<open>xs\<close>, and the distance between two board positions of a
  field of width \<open>n\<close>.
\<close>

definition pos_of :: "int list \<Rightarrow> int \<Rightarrow> nat" where
  "pos_of xs t = (case first_index xs t of Some i \<Rightarrow> i | None \<Rightarrow> 0)"

definition cell_dist :: "int \<Rightarrow> nat \<Rightarrow> nat \<Rightarrow> int" where
  "cell_dist n p q = \<bar>int p div n - int q div n\<bar> + \<bar>int p mod n - int q mod n\<bar>"

section \<open>The test harness\<close>

text \<open>
  The statistics dictionary of \<open>massive_test\<close>, with its keys \<open>len\<close>, \<open>st_size\<close> and
  \<open>steps\<close>. Path lengths are numbers: the \<open>g\<close> of the last state, or \<open>0.0\<close>.
\<close>

record statistics =
  len :: "real list"
  st_size :: "int list"
  steps :: "int list"













section \<open>Successor generation on the object store\<close>

text \<open>
  Python objects live in a store and are reached by reference. A list object holds a
  sequence of integers; a \<open>GemPuzzleState\<close> object holds its attributes, \<open>tile_list\<close> being a
  reference to a list object (or missing). A reference is the index of the object in the
  store, and a new object is put at the end, so a reference handed out once stays valid.
\<close>

type_synonym ref = nat

record state_object =
  obj_size :: "int option"
  obj_tile_list :: "ref option"
  obj_blank_pos :: "int option"

record store =
  list_objects :: "int list list"
  state_objects :: "state_object list"

definition attr_size :: "store \<Rightarrow> ref \<Rightarrow> int option" where
  "attr_size h r = obj_size (state_objects h ! r)"

definition attr_tile_list :: "store \<Rightarrow> ref \<Rightarrow> ref option" where
  "attr_tile_list h r = obj_tile_list (state_objects h ! r)"

definition attr_blank_pos :: "store \<Rightarrow> ref \<Rightarrow> int option" where
  "attr_blank_pos h r = obj_blank_pos (state_objects h ! r)"

definition set_size :: "store \<Rightarrow> ref \<Rightarrow> int option \<Rightarrow> store" where
  "set_size h r v =
     h\<lparr>state_objects := (state_objects h)[r := (state_objects h ! r)\<lparr>obj_size := v\<rparr>]\<rparr>"

definition set_tile_list :: "store \<Rightarrow> ref \<Rightarrow> ref option \<Rightarrow> store" where
  "set_tile_list h r v =
     h\<lparr>state_objects := (state_objects h)[r := (state_objects h ! r)\<lparr>obj_tile_list := v\<rparr>]\<rparr>"

definition set_blank_pos :: "store \<Rightarrow> ref \<Rightarrow> int option \<Rightarrow> store" where
  "set_blank_pos h r v =
     h\<lparr>state_objects := (state_objects h)[r := (state_objects h ! r)\<lparr>obj_blank_pos := v\<rparr>]\<rparr>"

definition set_list :: "store \<Rightarrow> ref \<Rightarrow> int list \<Rightarrow> store" where
  "set_list h l xs = h\<lparr>list_objects := (list_objects h)[l := xs]\<rparr>"

text \<open>\<open>GemPuzzleState()\<close>: a new object with \<open>size\<close> and \<open>blank_pos\<close> \<open>None\<close> and no \<open>tile_list\<close>.\<close>

definition new_GemPuzzleState :: "store \<Rightarrow> ref \<times> store" where
  "new_GemPuzzleState h =
     (length (state_objects h),
      h\<lparr>state_objects := state_objects h @
          [\<lparr>obj_size = None, obj_tile_list = None, obj_blank_pos = None\<rparr>]\<rparr>)"

text \<open>\<open>copy.copy\<close> of a list: a new list object with the same elements.\<close>

definition copy_list :: "store \<Rightarrow> ref \<Rightarrow> ref \<times> store" where
  "copy_list h l =
     (length (list_objects h), h\<lparr>list_objects := list_objects h @ [list_objects h ! l]\<rparr>)"

text \<open>
  The two item assignments that end the loop body:
  \<open>new_state.tile_list[state.blank_pos] = new_state.tile_list[new_state.blank_pos]\<close> and
  \<open>new_state.tile_list[new_state.blank_pos] = state.size ** 2\<close>. Each right-hand side is
  evaluated before its target; every attribute is read from the store as it is then.
\<close>

definition assign_tiles :: "store \<Rightarrow> ref \<Rightarrow> ref \<Rightarrow> (py_exception + ref) \<times> store" where
  "assign_tiles h state new_state =
     (case attr_tile_list h new_state of
        None \<Rightarrow> (Inl AttributeError, h)
      | Some l \<Rightarrow>
     (case attr_blank_pos h new_state of
        None \<Rightarrow> (Inl TypeError, h)
      | Some nb \<Rightarrow>
     (case py_getitem (list_objects h ! l) nb of
        Inl e \<Rightarrow> (Inl e, h)
      | Inr t \<Rightarrow>
     (case attr_blank_pos h state of
        None \<Rightarrow> (Inl TypeError, h)
      | Some bp \<Rightarrow>
     (case py_setitem (list_objects h ! l) bp t of
        Inl e \<Rightarrow> (Inl e, h)
      | Inr ys \<Rightarrow>
     (let h1 = set_list h l ys in
      case attr_size h1 state of
        None \<Rightarrow> (Inl TypeError, h1)
      | Some sz \<Rightarrow>
     (case attr_tile_list h1 new_state of
        None \<Rightarrow> (Inl AttributeError, h1)
      | Some l2 \<Rightarrow>
     (case attr_blank_pos h1 new_state of
        None \<Rightarrow> (Inl TypeError, h1)
      | Some nb2 \<Rightarrow>
     (case py_setitem (list_objects h1 ! l2) nb2 (sz ^ 2) of
        Inl e \<Rightarrow> (Inl e, h1)
      | Inr zs \<Rightarrow> (Inr new_state, set_list h1 l2 zs))))))))))"

text \<open>
  The body of the \<open>if\<close> for a move to \<open>row\<close> and \<open>col\<close>: the new object, its three attribute
  assignments (the tile list a copy), then the item assignments.
\<close>

definition build_successor :: "store \<Rightarrow> ref \<Rightarrow> int \<Rightarrow> int \<Rightarrow> (py_exception + ref) \<times> store" where
  "build_successor h state row col =
     (case new_GemPuzzleState h of (new_state, h1) \<Rightarrow>
     (let h2 = set_size h1 new_state (attr_size h1 state) in
      case attr_tile_list h2 state of
        None \<Rightarrow> (Inl AttributeError, h2)
      | Some l \<Rightarrow>
     (case copy_list h2 l of (l', h3) \<Rightarrow>
     (let h4 = set_tile_list h3 new_state (Some l') in
      case attr_size h4 state of
        None \<Rightarrow> (Inl TypeError, h4)
      | Some sz \<Rightarrow>
          assign_tiles (set_blank_pos h4 new_state (Some (row * sz + col))) state new_state))))"

definition move_blank_store ::
  "store \<Rightarrow> ref \<Rightarrow> int \<times> int \<Rightarrow> (py_exception + ref option) \<times> store" where
  "move_blank_store h state d =
     (case d of (dx, dy) \<Rightarrow>
       (case (attr_blank_pos h state, attr_size h state) of
          (Some bp, Some sz) \<Rightarrow>
            if sz = 0 then (Inl ZeroDivisionError, h)
            else
              (let row = bp div sz + dx; col = bp mod sz + dy in
               if 0 \<le> row \<and> row < sz \<and> 0 \<le> col \<and> col < sz then
                 (case build_successor h state row col of
                    (Inl e, h1) \<Rightarrow> (Inl e, h1)
                  | (Inr new_state, h1) \<Rightarrow> (Inr (Some new_state), h1))
               else (Inr None, h))
        | _ \<Rightarrow> (Inl TypeError, h)))"

fun successors_loop_store ::
  "store \<Rightarrow> ref \<Rightarrow> (int \<times> int) list \<Rightarrow> ref list \<Rightarrow> (py_exception + ref list) \<times> store"
where
  "successors_loop_store h state [] successors = (Inr successors, h)"
| "successors_loop_store h state (d # ds) successors =
     (case move_blank_store h state d of
        (Inl e, h1) \<Rightarrow> (Inl e, h1)
      | (Inr None, h1) \<Rightarrow> successors_loop_store h1 state ds successors
      | (Inr (Some new_state), h1) \<Rightarrow>
          successors_loop_store h1 state ds (successors @ [new_state]))"

definition get_successors_store :: "store \<Rightarrow> ref \<Rightarrow> (py_exception + ref list) \<times> store" where
  "get_successors_store h state = successors_loop_store h state delta []"

text \<open>The state an object of the store stands for: its attributes, with the tile list read.\<close>

definition state_at :: "store \<Rightarrow> ref \<Rightarrow> GemPuzzleState" where
  "state_at h r =
     \<lparr>size_st = attr_size h r,
      tile_list = map_option (\<lambda>l. list_objects h ! l) (attr_tile_list h r),
      blank_pos = attr_blank_pos h r\<rparr>"

text \<open>A store for examples: one state object for the tiles \<open>[2, 1, 3, 4]\<close>.\<close>

definition example_store :: store where
  "example_store =
     \<lparr>list_objects = [[2, 1, 3, 4]],
      state_objects = [\<lparr>obj_size = Some 2, obj_tile_list = Some 0, obj_blank_pos = Some 3\<rparr>]\<rparr>"

section \<open>Properties of the constructor\<close>

lemma isqrt_bounds: "isqrt n * isqrt n \<le> n \<and> n < Suc (isqrt n) * Suc (isqrt n)"
  by (induction n) (auto simp: Let_def)

lemma isqrt_square: "isqrt (k * k) = k"
proof -
  have a: "isqrt (k * k) * isqrt (k * k) \<le> k * k"
    and b: "k * k < Suc (isqrt (k * k)) * Suc (isqrt (k * k))"
    using isqrt_bounds [of "k * k"] by auto
  have "\<not> k < isqrt (k * k)"
  proof
    assume "k < isqrt (k * k)"
    then have h: "Suc k \<le> isqrt (k * k)" by simp
    have "Suc k * Suc k \<le> isqrt (k * k) * isqrt (k * k)" by (rule mult_le_mono [OF h h])
    with a show False by simp
  qed
  moreover have "\<not> isqrt (k * k) < k"
  proof
    assume "isqrt (k * k) < k"
    then have h: "Suc (isqrt (k * k)) \<le> k" by simp
    have "Suc (isqrt (k * k)) * Suc (isqrt (k * k)) \<le> k * k" by (rule mult_le_mono [OF h h])
    with b show False by simp
  qed
  ultimately show ?thesis by simp
qed

text \<open>
  Claim C9: the constructor called without a tile list does not raise; the state it returns
  has \<open>size\<close> and \<open>blank_pos\<close> both \<open>None\<close> and no tile sequence.
\<close>

theorem init_default_no_validation:
  "GemPuzzleState_init None = Inr \<lparr>size_st = None, tile_list = None, blank_pos = None\<rparr>"
  by (simp add: GemPuzzleState_init_def)

lemma first_index_None: "first_index xs v = None \<longleftrightarrow> v \<notin> set xs"
  by (induction xs) auto

lemma first_index_Some:
  "first_index xs v = Some i \<Longrightarrow> i < length xs \<and> xs ! i = v \<and> (\<forall>j<i. xs ! j \<noteq> v)"
proof (induction xs arbitrary: i)
  case Nil
  then show ?case by simp
next
  case (Cons x xs)
  show ?case
  proof (cases "x = v")
    case True
    with Cons.prems show ?thesis by simp
  next
    case False
    with Cons.prems obtain i' where i': "first_index xs v = Some i'" "i = Suc i'"
      by auto
    from Cons.IH [OF i'(1)] False i'(2) show ?thesis
      by (auto simp: nth_Cons split: nat.splits)
  qed
qed

lemma isqrt_not_square: "(\<forall>k. n \<noteq> k * k) \<Longrightarrow> int n \<noteq> (int (isqrt n)) ^ 2"
proof
  assume a: "\<forall>k. n \<noteq> k * k" and b: "int n = (int (isqrt n)) ^ 2"
  from b have "int n = int (isqrt n * isqrt n)" by (simp add: power2_eq_square)
  then have "n = isqrt n * isqrt n" by (simp only: of_nat_eq_iff)
  with a show False by blast
qed

text \<open>
  Claim C1, as the code has it: construction fails when the length of the list is not a
  perfect square, and fails when the sentinel value \<open>size * size\<close> is absent from the list;
  otherwise (also when the sentinel occurs more than once) construction succeeds and
  \<open>blank_pos\<close> is the index of the first occurrence of the sentinel.
\<close>

theorem init_validation:
  "((\<forall>k. length xs \<noteq> k * k) \<longrightarrow>
      GemPuzzleState_init (Some xs) = Inl (ValueError msg_square)) \<and>
   (length xs = k * k \<and> int (k * k) \<notin> set xs \<longrightarrow>
      GemPuzzleState_init (Some xs) = Inl (ValueError msg_blank)) \<and>
   (length xs = k * k \<and> int (k * k) \<in> set xs \<longrightarrow>
      (\<exists>i. i < length xs \<and> xs ! i = int (k * k) \<and> (\<forall>j<i. xs ! j \<noteq> int (k * k)) \<and>
        GemPuzzleState_init (Some xs) =
          Inr \<lparr>size_st = Some (int k), tile_list = Some xs, blank_pos = Some (int i)\<rparr>))"
proof (intro conjI impI)
  assume "\<forall>k. length xs \<noteq> k * k"
  then have "int (length xs) \<noteq> (int (isqrt (length xs))) ^ 2"
    by (rule isqrt_not_square)
  then show "GemPuzzleState_init (Some xs) = Inl (ValueError msg_square)"
    by (simp add: GemPuzzleState_init_def Let_def)
next
  assume a: "length xs = k * k \<and> int (k * k) \<notin> set xs"
  then have "isqrt (length xs) = k" by (simp add: isqrt_square)
  with a show "GemPuzzleState_init (Some xs) = Inl (ValueError msg_blank)"
    by (simp add: GemPuzzleState_init_def Let_def power2_eq_square)
next
  assume a: "length xs = k * k \<and> int (k * k) \<in> set xs"
  then have sq: "isqrt (length xs) = k" by (simp add: isqrt_square)
  from a have "first_index xs (int (k * k)) \<noteq> None" by (simp add: first_index_None)
  then obtain i where i: "first_index xs (int (k * k)) = Some i" by blast
  from first_index_Some [OF i]
  have p: "i < length xs \<and> xs ! i = int (k * k) \<and> (\<forall>j<i. xs ! j \<noteq> int (k * k))" .
  have "GemPuzzleState_init (Some xs) =
          Inr \<lparr>size_st = Some (int k), tile_list = Some xs, blank_pos = Some (int i)\<rparr>"
    using a sq i by (simp add: GemPuzzleState_init_def Let_def power2_eq_square py_index_def)
  with p show "\<exists>i. i < length xs \<and> xs ! i = int (k * k) \<and> (\<forall>j<i. xs ! j \<noteq> int (k * k)) \<and>
        GemPuzzleState_init (Some xs) =
          Inr \<lparr>size_st = Some (int k), tile_list = Some xs, blank_pos = Some (int i)\<rparr>"
    by blast
qed

theorem init_validation_witness:
  "GemPuzzleState_init (Some [1, 2, 3]) = Inl (ValueError msg_square) \<and>
   GemPuzzleState_init (Some [1, 2, 3, 5]) = Inl (ValueError msg_blank) \<and>
   (\<exists>i. i < 4 \<and> [2, 1, 4, 3 :: int] ! i = 4 \<and>
      GemPuzzleState_init (Some [2, 1, 4, 3]) =
        Inr \<lparr>size_st = Some 2, tile_list = Some [2, 1, 4, 3], blank_pos = Some (int i)\<rparr>)"
proof -
  have ns: "\<forall>k. length [1, 2, 3 :: int] \<noteq> k * k"
  proof
    fix k :: nat
    show "length [1, 2, 3 :: int] \<noteq> k * k"
    proof (cases "k < 2")
      case True
      then have "k = 0 \<or> k = 1" by arith
      then show ?thesis by auto
    next
      case False
      then have "2 \<le> k" by simp
      then have "2 * 2 \<le> k * k" by (rule mult_le_mono [OF _ \<open>2 \<le> k\<close>])
      then show ?thesis by simp
    qed
  qed
  have w1: "GemPuzzleState_init (Some [1, 2, 3]) = Inl (ValueError msg_square)"
    using init_validation [of "[1, 2, 3]" 0] ns by blast
  have w2: "GemPuzzleState_init (Some [1, 2, 3, 5]) = Inl (ValueError msg_blank)"
    using init_validation [of "[1, 2, 3, 5]" 2] by simp
  have w3: "\<exists>i. i < length [2, 1, 4, 3 :: int] \<and> [2, 1, 4, 3 :: int] ! i = int (2 * 2) \<and>
      (\<forall>j<i. [2, 1, 4, 3 :: int] ! j \<noteq> int (2 * 2)) \<and>
      GemPuzzleState_init (Some [2, 1, 4, 3]) =
        Inr \<lparr>size_st = Some (int 2), tile_list = Some [2, 1, 4, 3], blank_pos = Some (int i)\<rparr>"
    using init_validation [of "[2, 1, 4, 3]" 2] by simp
  from w3 have "\<exists>i. i < 4 \<and> [2, 1, 4, 3 :: int] ! i = 4 \<and>
      GemPuzzleState_init (Some [2, 1, 4, 3]) =
        Inr \<lparr>size_st = Some 2, tile_list = Some [2, 1, 4, 3], blank_pos = Some (int i)\<rparr>"
    by auto
  with w1 w2 show ?thesis by blast
qed

text \<open>
  Claim C1 as written fails: a tile list of square length that holds the sentinel twice is
  accepted, and \<open>blank_pos\<close> is the first of the two indices.
\<close>

theorem init_duplicate_blank_accepted:
  "count_list [4, 4, 1, 2 :: int] (2 * 2) = 2 \<and>
   GemPuzzleState_init (Some [4, 4, 1, 2]) =
     Inr \<lparr>size_st = Some 2, tile_list = Some [4, 4, 1, 2], blank_pos = Some 0\<rparr>"
  by (simp add: GemPuzzleState_init_def py_index_def Let_def)

section \<open>Properties of the successor generator\<close>

lemma valid_state_length:
  assumes "distinct xs" "set xs = {1..n * n}"
  shows "length xs = nat (n * n)"
proof -
  have "length xs = card (set xs)" using assms(1) by (simp add: distinct_card)
  also have "\<dots> = nat (n * n)" using assms(2) by simp
  finally show ?thesis .
qed

lemma cell_index_bounds:
  fixes n r c :: int
  assumes "0 \<le> r" "r < n" "0 \<le> c" "c < n"
  shows "0 \<le> r * n + c \<and> r * n + c < n * n"
proof -
  have "r * n \<le> (n - 1) * n" using assms by (intro mult_right_mono) auto
  then have "r * n + c < (n - 1) * n + n" using assms by linarith
  moreover have "(n - 1) * n + n = n * n" by (simp add: algebra_simps)
  moreover have "0 \<le> r * n" using assms by simp
  ultimately show ?thesis using assms by simp
qed

lemma cell_index_div_mod:
  fixes n r c :: int
  assumes "0 \<le> c" "c < n"
  shows "(r * n + c) div n = r" "(r * n + c) mod n = c"
  using assms by (simp_all add: div_pos_pos_trivial mod_pos_pos_trivial)

text \<open>The state a kept move builds, for the destination row and column.\<close>

lemma move_blank_valid:
  assumes st: "size_st st = Some n" "tile_list st = Some xs" "blank_pos st = Some b"
    and n: "2 \<le> n" and len: "length xs = nat (n * n)"
    and b: "0 \<le> b" "b < n * n" and blank: "xs ! nat b = n * n"
  shows "move_blank st (dx, dy) =
     Inr (if 0 \<le> b div n + dx \<and> b div n + dx < n \<and> 0 \<le> b mod n + dy \<and> b mod n + dy < n
          then Some \<lparr>size_st = Some n,
                 tile_list = Some (swap_at xs (nat b) (nat ((b div n + dx) * n + (b mod n + dy)))),
                 blank_pos = Some ((b div n + dx) * n + (b mod n + dy))\<rparr>
          else None)"
proof (cases "0 \<le> b div n + dx \<and> b div n + dx < n \<and> 0 \<le> b mod n + dy \<and> b mod n + dy < n")
  case False
  then show ?thesis using st n by (auto simp: move_blank_def Let_def)
next
  case True
  define d where "d = (b div n + dx) * n + (b mod n + dy)"
  from True have d: "0 \<le> d" "d < n * n"
    using cell_index_bounds [of "b div n + dx" n "b mod n + dy"] by (simp_all add: d_def)
  have nn: "0 \<le> n * n" using n by simp
  have g: "py_getitem xs d = Inr (xs ! nat d)"
    using d len nn by (simp add: py_getitem_def py_norm_index_def)
  have s1: "py_setitem xs b (xs ! nat d) = Inr (xs[nat b := xs ! nat d])"
    using b len nn by (simp add: py_setitem_def py_norm_index_def)
  have s2: "py_setitem (xs[nat b := xs ! nat d]) d (n ^ 2) =
              Inr (xs[nat b := xs ! nat d, nat d := n ^ 2])"
    using d len nn by (simp add: py_setitem_def py_norm_index_def)
  have sw: "xs[nat b := xs ! nat d, nat d := n ^ 2] = swap_at xs (nat b) (nat d)"
    using blank by (simp add: swap_at_def power2_eq_square)
  have "move_blank st (dx, dy) =
          Inr (Some \<lparr>size_st = Some n, tile_list = Some (swap_at xs (nat b) (nat d)),
                     blank_pos = Some d\<rparr>)"
    using True st n g s1 s2 sw unfolding move_blank_def d_def [symmetric]
    by (simp add: Let_def d_def [symmetric])
  with True show ?thesis by (simp add: d_def)
qed

lemma successors_loop_Inr:
  "\<forall>d \<in> set ds. move_blank st d = Inr (f d) \<Longrightarrow>
   successors_loop st ds acc = Inr (acc @ List.map_filter f ds)"
proof (induction ds arbitrary: acc)
  case Nil
  then show ?case by (simp add: List.map_filter_simps)
next
  case (Cons d ds)
  then have hd: "move_blank st d = Inr (f d)" and tl: "\<forall>d \<in> set ds. move_blank st d = Inr (f d)"
    by simp_all
  show ?case
  proof (cases "f d")
    case None
    with hd Cons.IH [OF tl] show ?thesis by (simp add: List.map_filter_simps)
  next
    case (Some s)
    with hd Cons.IH [OF tl, of "acc @ [s]"] show ?thesis by (simp add: List.map_filter_simps)
  qed
qed

lemma count_moves:
  fixes n r c :: int
  assumes "2 \<le> n" "0 \<le> r" "r < n" "0 \<le> c" "c < n"
  shows "length (filter (\<lambda>d. case d of (dx, dy) \<Rightarrow>
                   0 \<le> r + dx \<and> r + dx < n \<and> 0 \<le> c + dy \<and> c + dy < n) delta) =
         (if on_border n r \<and> on_border n c then 2
          else if on_border n r \<or> on_border n c then 3 else 4)"
  using assms by (auto simp: delta_def on_border_def)

lemma board_row_less:
  fixes n b :: int
  assumes "0 < n" "b < n * n"
  shows "b div n < n"
proof (rule ccontr)
  assume "\<not> b div n < n"
  then have "n \<le> b div n" by simp
  then have "n * n \<le> n * (b div n)" using assms(1) by (intro mult_left_mono) auto
  moreover have "n * (b div n) \<le> b"
    using mult_div_mod_eq [of n b] pos_mod_sign [OF assms(1), of b] by linarith
  ultimately show False using assms(2) by linarith
qed

lemma get_successors_valid:
  assumes st: "size_st st = Some n" "tile_list st = Some xs" "blank_pos st = Some b"
    and n: "2 \<le> n" and len: "length xs = nat (n * n)"
    and b: "0 \<le> b" "b < n * n" and blank: "xs ! nat b = n * n"
  shows "get_successors st = Inr (map (moved_state n xs b) (filter (in_field n b) delta))"
proof -
  let ?f = "\<lambda>d. if in_field n b d then Some (moved_state n xs b d) else None"
  have "\<forall>d \<in> set delta. move_blank st d = Inr (?f d)"
  proof
    fix d :: "int \<times> int"
    obtain dx dy where d: "d = (dx, dy)" by (cases d)
    show "move_blank st d = Inr (?f d)"
      unfolding d using move_blank_valid [OF st n len b blank, of dx dy]
      by (simp add: in_field_def moved_state_def move_target_def)
  qed
  then have "successors_loop st delta [] = Inr ([] @ List.map_filter ?f delta)"
    by (rule successors_loop_Inr)
  then show ?thesis
    by (simp add: get_successors_def map_filter_map_filter)
qed

lemma valid_stateE:
  assumes "valid_state st"
  obtains n xs b where "size_st st = Some n" "tile_list st = Some xs" "blank_pos st = Some b"
    "2 \<le> n" "distinct xs" "set xs = {1..n * n}" "length xs = nat (n * n)"
    "0 \<le> b" "b < n * n" "xs ! nat b = n * n"
proof -
  from assms obtain n xs b where
    f: "size_st st = Some n" "tile_list st = Some xs" "blank_pos st = Some b"
    and p: "2 \<le> n" "distinct xs" "set xs = {1..n * n}" "0 \<le> b" "b < n * n" "xs ! nat b = n * n"
    by (auto simp: valid_state_def split: option.splits)
  from p(2,3) have "length xs = nat (n * n)" by (rule valid_state_length)
  with f p that show thesis by blast
qed

text \<open>The constructor, given a permutation of \<open>1..n*n\<close> with \<open>n \<ge> 2\<close>, builds a valid state.\<close>

lemma init_valid_state:
  assumes "2 \<le> n" "distinct xs" "set xs = {1..int (n * n)}"
  shows "\<exists>st. GemPuzzleState_init (Some xs) = Inr st \<and> valid_state st"
proof -
  have "length xs = card (set xs)" using assms(2) by (simp add: distinct_card)
  then have len: "length xs = n * n" using assms(3) by (simp del: of_nat_mult)
  then have sq: "isqrt (length xs) = n" by (simp add: isqrt_square)
  have "0 < n * n" using assms(1) by simp
  then have "1 \<le> int (n * n)" by linarith
  then have mem: "int (n * n) \<in> set xs" unfolding assms(3) by (simp del: of_nat_mult)
  then have "first_index xs (int (n * n)) \<noteq> None" by (simp add: first_index_None)
  then obtain i where i: "first_index xs (int (n * n)) = Some i" by blast
  from first_index_Some [OF i] len have p: "i < n * n" "xs ! i = int (n * n)" by simp_all
  have r: "GemPuzzleState_init (Some xs) =
             Inr \<lparr>size_st = Some (int n), tile_list = Some xs, blank_pos = Some (int i)\<rparr>"
    using len sq mem i by (simp add: GemPuzzleState_init_def Let_def power2_eq_square py_index_def)
  have "int i < int (n * n)" using p(1) by (simp only: of_nat_less_iff)
  then have "valid_state \<lparr>size_st = Some (int n), tile_list = Some xs, blank_pos = Some (int i)\<rparr>"
    using assms p(2) by (simp add: valid_state_def)
  with r show ?thesis by blast
qed

lemma move_target_props:
  assumes n: "2 \<le> n" and b: "0 \<le> b" "b < n * n"
    and d: "d \<in> set delta" and f: "in_field n b d"
  shows "0 \<le> move_target n b d" "move_target n b d < n * n" "adjacent n b (move_target n b d)"
    "move_target n b d \<noteq> b"
proof -
  obtain dx dy where dd: "d = (dx, dy)" by (cases d)
  let ?r = "b div n + dx" and ?c = "b mod n + dy"
  from f have rc: "0 \<le> ?r" "?r < n" "0 \<le> ?c" "?c < n" by (simp_all add: in_field_def dd)
  from cell_index_bounds [OF rc]
  show "0 \<le> move_target n b d" "move_target n b d < n * n"
    by (simp_all add: move_target_def dd)
  have dm: "move_target n b d div n = ?r" "move_target n b d mod n = ?c"
    using cell_index_div_mod [OF rc(3,4), of ?r] by (simp_all add: move_target_def dd)
  from d have "(dx = 0 \<and> \<bar>dy\<bar> = 1) \<or> (\<bar>dx\<bar> = 1 \<and> dy = 0)"
    by (auto simp: delta_def dd)
  then show adj: "adjacent n b (move_target n b d)"
    unfolding adjacent_def dm by auto
  show "move_target n b d \<noteq> b"
  proof
    assume "move_target n b d = b"
    with adj have "adjacent n b b" by simp
    then show False by (simp add: adjacent_def)
  qed
qed

lemma swap_at_differs:
  assumes "distinct xs" "i < length xs" "j < length xs" "i \<noteq> j"
  shows "swap_at xs i j \<noteq> xs"
proof
  assume "swap_at xs i j = xs"
  then have "swap_at xs i j ! i = xs ! i" by simp
  moreover have "swap_at xs i j ! i = xs ! j"
    using assms by (simp add: swap_at_def)
  ultimately have "xs ! j = xs ! i" by simp
  with assms show False by (simp add: nth_eq_iff_index_eq)
qed

text \<open>
  Claim C3: for every valid state the successor generator returns at most four states; each
  is the input after exactly one swap of the blank with the tile at an adjacent board
  position, and none has the tile sequence of the input.
\<close>

theorem get_successors_blank_moves:
  assumes "valid_state st"
  shows "\<exists>ss. get_successors st = Inr ss \<and> length ss \<le> 4 \<and>
           (\<forall>s \<in> set ss. blank_move st s \<and> tile_list s \<noteq> tile_list st \<and> s \<noteq> st)"
proof -
  from assms obtain n xs b where
    st: "size_st st = Some n" "tile_list st = Some xs" "blank_pos st = Some b"
    and n: "2 \<le> n" and dist: "distinct xs" and len: "length xs = nat (n * n)"
    and b: "0 \<le> b" "b < n * n" and blank: "xs ! nat b = n * n"
    by (rule valid_stateE)
  let ?ss = "map (moved_state n xs b) (filter (in_field n b) delta)"
  have res: "get_successors st = Inr ?ss"
    by (rule get_successors_valid [OF st n len b blank])
  have "length ?ss \<le> length delta" by simp
  then have cnt: "length ?ss \<le> 4" by (simp add: delta_def)
  have each: "blank_move st s \<and> tile_list s \<noteq> tile_list st \<and> s \<noteq> st" if "s \<in> set ?ss" for s
  proof -
    from that obtain d where d: "d \<in> set delta" "in_field n b d" and s: "s = moved_state n xs b d"
      by auto
    note t = move_target_props [OF n b d]
    have bm: "blank_move st s"
      using st t by (simp add: blank_move_def s moved_state_def)
    have "nat b < length xs" "nat (move_target n b d) < length xs" "nat b \<noteq> nat (move_target n b d)"
      using b t len by auto
    with dist have "swap_at xs (nat b) (nat (move_target n b d)) \<noteq> xs"
      by (intro swap_at_differs)
    then have ne: "tile_list s \<noteq> tile_list st" by (simp add: s moved_state_def st)
    then have "s \<noteq> st" by auto
    with bm ne show ?thesis by simp
  qed
  from res cnt each show ?thesis by blast
qed

text \<open>
  Claim C10: for every valid state (size at least 2) the successor generator returns at
  least two successors: two for a blank in a corner, three for a blank on an edge, four for
  a blank in the interior.
\<close>

theorem get_successors_at_least_two:
  assumes "valid_state st"
  shows "\<exists>ss n b. get_successors st = Inr ss \<and> size_st st = Some n \<and> blank_pos st = Some b \<and>
           2 \<le> length ss \<and>
           length ss = (if on_border n (b div n) \<and> on_border n (b mod n) then 2
                        else if on_border n (b div n) \<or> on_border n (b mod n) then 3
                        else 4)"
proof -
  from assms obtain n xs b where
    st: "size_st st = Some n" "tile_list st = Some xs" "blank_pos st = Some b"
    and n: "2 \<le> n" and len: "length xs = nat (n * n)"
    and b: "0 \<le> b" "b < n * n" and blank: "xs ! nat b = n * n"
    by (rule valid_stateE)
  let ?ss = "map (moved_state n xs b) (filter (in_field n b) delta)"
  have res: "get_successors st = Inr ?ss"
    by (rule get_successors_valid [OF st n len b blank])
  have r: "0 \<le> b div n" "b div n < n"
    using n b by (simp_all add: pos_imp_zdiv_nonneg_iff board_row_less)
  have c: "0 \<le> b mod n" "b mod n < n" using n by simp_all
  have cnt: "length ?ss = (if on_border n (b div n) \<and> on_border n (b mod n) then 2
                        else if on_border n (b div n) \<or> on_border n (b mod n) then 3
                        else 4)"
    using count_moves [OF n r c] by (simp add: in_field_def [abs_def])
  then have "2 \<le> length ?ss" by (simp split: if_splits)
  with res st cnt show ?thesis by blast
qed

lemma valid_state_example:
  "valid_state \<lparr>size_st = Some 2, tile_list = Some [2, 1, 3, 4], blank_pos = Some 3\<rparr>"
proof -
  have "set [2, 1, 3, 4 :: int] = {1..2 * 2}" by auto
  then show ?thesis by (simp add: valid_state_def)
qed

theorem get_successors_blank_moves_witness:
  "valid_state \<lparr>size_st = Some 2, tile_list = Some [2, 1, 3, 4], blank_pos = Some 3\<rparr> \<and>
   get_successors \<lparr>size_st = Some 2, tile_list = Some [2, 1, 3, 4], blank_pos = Some 3\<rparr> =
     Inr [\<lparr>size_st = Some 2, tile_list = Some [2, 1, 4, 3], blank_pos = Some 2\<rparr>,
          \<lparr>size_st = Some 2, tile_list = Some [2, 4, 3, 1], blank_pos = Some 1\<rparr>] \<and>
   (\<exists>ss. get_successors \<lparr>size_st = Some 2, tile_list = Some [2, 1, 3, 4], blank_pos = Some 3\<rparr> = Inr ss \<and>
      length ss \<le> 4 \<and>
      (\<forall>s \<in> set ss.
         blank_move \<lparr>size_st = Some 2, tile_list = Some [2, 1, 3, 4], blank_pos = Some 3\<rparr> s \<and>
         tile_list s \<noteq> Some [2, 1, 3, 4] \<and>
         s \<noteq> \<lparr>size_st = Some 2, tile_list = Some [2, 1, 3, 4], blank_pos = Some 3\<rparr>))"
proof -
  let ?st = "\<lparr>size_st = Some 2, tile_list = Some [2, 1, 3, 4], blank_pos = Some 3\<rparr>"
  have v: "valid_state ?st" by (rule valid_state_example)
  have e: "get_successors ?st =
     Inr [\<lparr>size_st = Some 2, tile_list = Some [2, 1, 4, 3], blank_pos = Some 2\<rparr>,
          \<lparr>size_st = Some 2, tile_list = Some [2, 4, 3, 1], blank_pos = Some 1\<rparr>]"
    by (simp add: get_successors_def delta_def move_blank_def py_getitem_def py_setitem_def py_norm_index_def Let_def)
  from get_successors_blank_moves [OF v] v e show ?thesis by simp
qed

theorem get_successors_at_least_two_witness:
  "valid_state \<lparr>size_st = Some 2, tile_list = Some [2, 1, 3, 4], blank_pos = Some 3\<rparr> \<and>
   (\<exists>ss. get_successors \<lparr>size_st = Some 2, tile_list = Some [2, 1, 3, 4], blank_pos = Some 3\<rparr> = Inr ss \<and>
      2 \<le> length ss \<and> length ss = 2)"
proof -
  let ?st = "\<lparr>size_st = Some 2, tile_list = Some [2, 1, 3, 4], blank_pos = Some 3\<rparr>"
  have v: "valid_state ?st" by (rule valid_state_example)
  from get_successors_at_least_two [OF v] obtain ss where
    "get_successors ?st = Inr ss" "2 \<le> length ss"
    "length ss = (if on_border 2 (3 div 2) \<and> on_border 2 (3 mod 2) then 2
                  else if on_border 2 (3 div 2) \<or> on_border 2 (3 mod 2) then 3 else 4)"
    by auto
  moreover have "on_border 2 (3 div 2)" "on_border 2 (3 mod 2)" by (simp_all add: on_border_def)
  ultimately have "get_successors ?st = Inr ss \<and> 2 \<le> length ss \<and> length ss = 2" by simp
  with v show ?thesis by blast
qed

section \<open>Properties of equality and hash\<close>

text \<open>
  Claim C5: two states that carry tile sequences compare equal iff the sequences are equal
  element by element; the hash is a function of the tile sequence alone, so equal states have
  the same hash.
\<close>

theorem state_eq_iff_tiles:
  assumes "tile_list A = Some xs" "tile_list B = Some ys"
  shows "GemPuzzleState_eq hash_str A B = Inr (xs = ys) \<and>
         GemPuzzleState_hash hash_str A = Inr (hash_str (str_list xs)) \<and>
         GemPuzzleState_hash hash_str B = Inr (hash_str (str_list ys)) \<and>
         (GemPuzzleState_eq hash_str A B = Inr True \<longrightarrow>
            GemPuzzleState_hash hash_str A = GemPuzzleState_hash hash_str B)"
  using assms by (auto simp: GemPuzzleState_eq_def GemPuzzleState_hash_def)

theorem state_eq_iff_tiles_witness:
  "GemPuzzleState_init (Some [2, 1, 3, 4]) =
     Inr \<lparr>size_st = Some 2, tile_list = Some [2, 1, 3, 4], blank_pos = Some 3\<rparr> \<and>
   GemPuzzleState_init (Some [1, 2, 3, 4]) =
     Inr \<lparr>size_st = Some 2, tile_list = Some [1, 2, 3, 4], blank_pos = Some 3\<rparr> \<and>
   str_list [2, 1, 3, 4] = ''[2, 1, 3, 4]'' \<and>
   GemPuzzleState_eq (\<lambda>s. int (length s))
     \<lparr>size_st = Some 2, tile_list = Some [2, 1, 3, 4], blank_pos = Some 3\<rparr>
     \<lparr>size_st = Some 2, tile_list = Some [1, 2, 3, 4], blank_pos = Some 3\<rparr> = Inr False \<and>
   GemPuzzleState_eq (\<lambda>s. int (length s))
     \<lparr>size_st = Some 2, tile_list = Some [2, 1, 3, 4], blank_pos = Some 3\<rparr>
     \<lparr>size_st = Some 2, tile_list = Some [2, 1, 3, 4], blank_pos = Some 3\<rparr> = Inr True \<and>
   GemPuzzleState_hash (\<lambda>s. int (length s))
     \<lparr>size_st = Some 2, tile_list = Some [2, 1, 3, 4], blank_pos = Some 3\<rparr> = Inr 12"
proof -
  let ?A = "\<lparr>size_st = Some 2, tile_list = Some [2, 1, 3, 4], blank_pos = Some 3\<rparr>"
  let ?B = "\<lparr>size_st = Some 2, tile_list = Some [1, 2, 3, 4], blank_pos = Some 3\<rparr>"
  let ?h = "\<lambda>s :: string. int (length s)"
  have i1: "GemPuzzleState_init (Some [2, 1, 3, 4]) = Inr ?A"
    by (simp add: GemPuzzleState_init_def py_index_def Let_def)
  have i2: "GemPuzzleState_init (Some [1, 2, 3, 4]) = Inr ?B"
    by (simp add: GemPuzzleState_init_def py_index_def Let_def)
  have s: "str_list [2, 1, 3, 4] = ''[2, 1, 3, 4]''"
    by (simp add: str_list_def str_int_def digit_char_def)
  have ab: "GemPuzzleState_eq ?h ?A ?B = Inr ([2, 1, 3, 4] = [1, 2, 3, 4 :: int])"
    using state_eq_iff_tiles [of ?A "[2, 1, 3, 4]" ?B "[1, 2, 3, 4]" ?h] by simp
  have aa: "GemPuzzleState_eq ?h ?A ?A = Inr ([2, 1, 3, 4] = [2, 1, 3, 4 :: int])"
    "GemPuzzleState_hash ?h ?A = Inr (?h (str_list [2, 1, 3, 4]))"
    using state_eq_iff_tiles [of ?A "[2, 1, 3, 4]" ?A "[2, 1, 3, 4]" ?h] by simp_all
  from i1 i2 s ab aa show ?thesis by simp
qed

section \<open>Properties of the solvability check\<close>

lemma count_smaller_eq:
  "count_smaller tile ps acc = acc + int (length (filter (\<lambda>y. y < tile) (map snd ps)))"
  by (induction tile ps acc rule: count_smaller.induct) auto

lemma count_inversions_eq:
  "count_inversions ps acc = acc + int (later_smaller (map snd ps))"
  by (induction ps acc rule: count_inversions.induct) (auto simp: count_smaller_eq)

lemma map_snd_filter_enumerate:
  "map snd (filter (\<lambda>p. P (snd p)) (List.enumerate k xs)) = filter P xs"
  by (induction xs arbitrary: k) auto

lemma puzzle_except_empty_values: "map snd (puzzle_except_empty tiles) = blank_free tiles"
  unfolding puzzle_except_empty_def blank_free_def by (rule map_snd_filter_enumerate)

lemma count_filter_nth:
  "(\<Sum>j<length ys. if P (ys ! j) then 1 else 0) = length (filter P ys)"
proof (induction ys)
  case Nil
  then show ?case by simp
next
  case (Cons y ys)
  have "(\<Sum>j<length (y # ys). if P ((y # ys) ! j) then 1 else 0) =
        (if P y then 1 else 0) + (\<Sum>j<length ys. if P (ys ! j) then 1 else (0::nat))"
    by (simp add: sum.lessThan_Suc_shift del: sum.lessThan_Suc)
  with Cons show ?case by simp
qed

lemma later_smaller_spec: "later_smaller ys = spec_inversions ys"
proof (induction ys)
  case Nil
  then show ?case by (simp add: spec_inversions_def)
next
  case (Cons x ys)
  have "spec_inversions (x # ys) =
        (\<Sum>j<length ys. \<Sum>i<Suc j. if (x # ys) ! Suc j < (x # ys) ! i then 1 else 0)"
    unfolding spec_inversions_def
    by (simp add: sum.lessThan_Suc_shift del: sum.lessThan_Suc)
  also have "\<dots> = (\<Sum>j<length ys. (if ys ! j < x then 1 else 0) +
                      (\<Sum>i<j. if ys ! j < ys ! i then 1 else 0))"
    by (simp add: sum.lessThan_Suc_shift del: sum.lessThan_Suc)
  also have "\<dots> = (\<Sum>j<length ys. if ys ! j < x then 1 else 0) + spec_inversions ys"
    by (simp add: sum.distrib spec_inversions_def)
  also have "(\<Sum>j<length ys. if ys ! j < x then 1 else 0) = length (filter (\<lambda>y. y < x) ys)"
    by (rule count_filter_nth)
  finally show ?case using Cons by simp
qed

lemma code_inversions_spec:
  "count_inversions (puzzle_except_empty tiles) 0 = int (spec_inversions (blank_free tiles))"
  by (simp add: count_inversions_eq puzzle_except_empty_values later_smaller_spec)

lemma is_solvable_square:
  assumes n: "0 < n" and len: "length tiles = n * n"
    and idx: "first_index tiles (int (n * n)) = Some i"
  shows "is_solvable tiles =
           Inr (if odd n then even (spec_inversions (blank_free tiles))
                else odd (int n - int i div int n) = even (spec_inversions (blank_free tiles)))"
proof -
  have sq: "isqrt (length tiles) = n" by (simp add: len isqrt_square)
  have pi: "py_index tiles (int (length tiles)) = Inr (int i)"
    using idx by (simp add: py_index_def len)
  have m: "int n mod 2 \<noteq> 0 \<longleftrightarrow> odd n" "int n mod 2 = 0 \<longleftrightarrow> even n"
    by presburger+
  have e: "int k mod 2 = 0 \<longleftrightarrow> even k" "(j :: int) mod 2 \<noteq> 0 \<longleftrightarrow> odd j" for k j
    by presburger+
  have z: "int n \<noteq> 0" using n by simp
  have "is_solvable tiles =
          (if int n mod 2 \<noteq> 0 \<and> int (spec_inversions (blank_free tiles)) mod 2 = 0 then Inr True
           else if int n mod 2 = 0 then
             Inr (((int n - int i div int n) mod 2 \<noteq> 0) =
                  (int (spec_inversions (blank_free tiles)) mod 2 = 0))
           else Inr False)"
    unfolding is_solvable_def code_inversions_spec sq pi Let_def
    by (simp only: sum.case z if_False)
  then show ?thesis
    unfolding m e by auto
qed

text \<open>
  Claim C2: for a permutation of \<open>1..n*n\<close>, with the inversions counted over the sequence
  with the blank removed: on a board of odd size the checker returns true iff the inversion
  count is even; on a board of even size it returns true iff
  (\<open>size - blank_index // size\<close> is odd) equals (the inversion count is even).
\<close>

theorem is_solvable_parity:
  assumes "0 < n" "distinct tiles" "set tiles = {1..int (n * n)}"
  shows "\<exists>i. i < length tiles \<and> tiles ! i = int (n * n) \<and>
           is_solvable tiles =
             Inr (if odd n then even (spec_inversions (blank_free tiles))
                  else odd (int n - int i div int n) = even (spec_inversions (blank_free tiles)))"
proof -
  have "length tiles = card (set tiles)" using assms(2) by (simp add: distinct_card)
  then have len: "length tiles = n * n" using assms(3) by (simp del: of_nat_mult)
  have "0 < n * n" using assms(1) by simp
  then have "1 \<le> int (n * n)" by linarith
  then have "int (n * n) \<in> set tiles" unfolding assms(3) by (simp del: of_nat_mult)
  then have "first_index tiles (int (n * n)) \<noteq> None" by (simp add: first_index_None)
  then obtain i where i: "first_index tiles (int (n * n)) = Some i" by blast
  from first_index_Some [OF i] have "i < length tiles" "tiles ! i = int (n * n)" by simp_all
  with is_solvable_square [OF assms(1) len i] show ?thesis by blast
qed

theorem is_solvable_parity_witness:
  "distinct [2, 1, 3, 4 :: int] \<and> set [2, 1, 3, 4 :: int] = {1..int (2 * 2)} \<and>
   distinct [1, 2, 3, 4, 5, 6, 8, 7, 9 :: int] \<and>
   set [1, 2, 3, 4, 5, 6, 8, 7, 9 :: int] = {1..int (3 * 3)} \<and>
   spec_inversions (blank_free [2, 1, 3, 4]) = 1 \<and>
   spec_inversions (blank_free [1, 2, 3, 4, 5, 6, 8, 7, 9]) = 1 \<and>
   is_solvable [2, 1, 3, 4] = Inr False \<and>
   is_solvable [1, 2, 3, 4, 5, 6, 8, 7, 9] = Inr False"
proof -
  have d2: "distinct [2, 1, 3, 4 :: int]" and d3: "distinct [1, 2, 3, 4, 5, 6, 8, 7, 9 :: int]"
    by simp_all
  have s2: "set [2, 1, 3, 4 :: int] = {1..int (2 * 2)}" by auto
  have s3: "set [1, 2, 3, 4, 5, 6, 8, 7, 9 :: int] = {1..int (3 * 3)}" by auto
  have i2: "spec_inversions (blank_free [2, 1, 3, 4]) = 1"
    by (simp add: spec_inversions_def blank_free_def)
  have i3: "spec_inversions (blank_free [1, 2, 3, 4, 5, 6, 8, 7, 9]) = 1"
    by (simp add: spec_inversions_def blank_free_def)
  from is_solvable_parity [of 2, OF _ d2 s2] obtain i where
    i: "i < length [2, 1, 3, 4 :: int]" "[2, 1, 3, 4 :: int] ! i = int (2 * 2)"
    and r2: "is_solvable [2, 1, 3, 4] =
      Inr (if odd (2 :: nat) then even (spec_inversions (blank_free [2, 1, 3, 4]))
           else odd (int 2 - int i div int 2) = even (spec_inversions (blank_free [2, 1, 3, 4])))"
    by auto
  from i have "i = 3" by (auto simp: nth_Cons less_Suc_eq split: nat.splits)
  with r2 i2 have w2: "is_solvable [2, 1, 3, 4] = Inr False" by simp
  from is_solvable_parity [of 3, OF _ d3 s3] obtain j where
    "is_solvable [1, 2, 3, 4, 5, 6, 8, 7, 9] =
      Inr (if odd (3 :: nat) then even (spec_inversions (blank_free [1, 2, 3, 4, 5, 6, 8, 7, 9]))
           else odd (int 3 - int j div int 3) =
                even (spec_inversions (blank_free [1, 2, 3, 4, 5, 6, 8, 7, 9])))"
    by auto
  with i3 have w3: "is_solvable [1, 2, 3, 4, 5, 6, 8, 7, 9] = Inr False" by simp
  from d2 d3 s2 s3 i2 i3 w2 w3 show ?thesis by blast
qed

lemma later_smaller_sorted: "sorted ys \<Longrightarrow> later_smaller ys = 0"
proof (induction ys)
  case Nil
  then show ?case by simp
next
  case (Cons x ys)
  then have "\<forall>y \<in> set ys. \<not> y < x" by auto
  then have "filter (\<lambda>y. y < x) ys = []" by (simp add: filter_empty_conv)
  with Cons show ?case by simp
qed

lemma goal_tiles_sorted: "sorted (blank_free (goal_tiles n))"
proof -
  have "sorted (map int [1..<Suc (n * n)])"
    by (simp add: sorted_map sorted_wrt_map del: upt_Suc)
  then show ?thesis
    unfolding blank_free_def goal_tiles_def by (rule sorted_wrt_filter)
qed

lemma goal_tiles_blank:
  assumes "0 < n"
  shows "first_index (goal_tiles n) (int (n * n)) = Some (n * n - 1)"
proof -
  have pos: "0 < n * n" using assms by simp
  have len: "length (goal_tiles n) = n * n" by (simp add: goal_tiles_def)
  have nth: "goal_tiles n ! i = int (Suc i)" if "i < n * n" for i
    using that unfolding goal_tiles_def by (simp add: nth_map_upt del: upt_Suc)
  have "goal_tiles n ! (n * n - 1) = int (n * n)" using pos nth [of "n * n - 1"] by simp
  then have "int (n * n) \<in> set (goal_tiles n)"
    using pos len by (metis diff_less nth_mem zero_less_one)
  then have "first_index (goal_tiles n) (int (n * n)) \<noteq> None" by (simp add: first_index_None)
  then obtain i where i: "first_index (goal_tiles n) (int (n * n)) = Some i" by blast
  from first_index_Some [OF i] len have "i < n * n" "goal_tiles n ! i = int (n * n)" by simp_all
  with nth [of i] have "int (Suc i) = int (n * n)" by simp
  then have "Suc i = n * n" by (simp only: of_nat_eq_iff)
  then have "i = n * n - 1" by simp
  with i show ?thesis by simp
qed

lemma last_cell_row:
  assumes "0 < n"
  shows "int (n * n - 1) div int n = int n - 1"
proof -
  have "int (n * n - 1) = (int n - 1) * int n + (int n - 1)"
    using assms by (simp add: algebra_simps of_nat_diff)
  moreover have "((int n - 1) * int n + (int n - 1)) div int n = int n - 1"
    using assms by (intro cell_index_div_mod(1)) auto
  ultimately show ?thesis by simp
qed

text \<open>
  Claim C6: for every board size \<open>n \<ge> 2\<close> the solvability checker returns true on the
  canonical goal ordering \<open>1, 2, ..., n*n\<close>.
\<close>

theorem is_solvable_goal:
  assumes "2 \<le> n"
  shows "is_solvable (goal_tiles n) = Inr True"
proof -
  have n: "0 < n" using assms by simp
  have len: "length (goal_tiles n) = n * n" by (simp add: goal_tiles_def)
  have inv: "spec_inversions (blank_free (goal_tiles n)) = 0"
    using later_smaller_sorted [OF goal_tiles_sorted, of n] by (simp add: later_smaller_spec)
  have row: "int n - int (n * n - 1) div int n = 1"
    using last_cell_row [OF n] by simp
  show ?thesis
    unfolding is_solvable_square [OF n len goal_tiles_blank [OF n]] inv row by simp
qed

theorem is_solvable_goal_witness:
  "goal_tiles 2 = [1, 2, 3, 4] \<and> is_solvable [1, 2, 3, 4] = Inr True"
proof -
  have g: "goal_tiles 2 = [1, 2, 3, 4]"
    by (simp add: goal_tiles_def upt_rec)
  have "(2::nat) \<le> 2" by simp
  from is_solvable_goal [OF this] g show ?thesis by simp
qed

section \<open>Properties of the Manhattan distance\<close>

lemma build_positions_other:
  "t \<notin> snd ` set ps \<Longrightarrow> build_positions ps bv m t = m t"
  by (induction ps bv m rule: build_positions.induct) auto

lemma build_positions_distinct:
  assumes "distinct xs" "p < length xs" "xs ! p \<noteq> bv"
  shows "build_positions (List.enumerate k xs) bv m (xs ! p) = Some (k + p)"
  using assms
proof (induction xs arbitrary: k m p)
  case Nil
  then show ?case by simp
next
  case (Cons x xs)
  show ?case
  proof (cases p)
    case 0
    have "x \<notin> snd ` set (List.enumerate (Suc k) xs)"
      using Cons.prems(1) by (auto simp: in_set_enumerate_eq)
    then have "build_positions (List.enumerate (Suc k) xs) bv (m(x \<mapsto> k)) x = (m(x \<mapsto> k)) x"
      by (rule build_positions_other)
    with 0 Cons.prems show ?thesis by simp
  next
    case (Suc q)
    with Cons.prems have "distinct xs" "q < length xs" "xs ! q \<noteq> bv" by simp_all
    from Cons.IH [OF this, of "Suc k"] Suc show ?thesis by simp
  qed
qed

lemma pos_of_nth:
  assumes "distinct xs" "p < length xs"
  shows "pos_of xs (xs ! p) = p"
proof -
  have "xs ! p \<in> set xs" using assms(2) by simp
  then have "first_index xs (xs ! p) \<noteq> None" by (simp add: first_index_None)
  then obtain i where i: "first_index xs (xs ! p) = Some i" by blast
  from first_index_Some [OF i] have "i < length xs" "xs ! i = xs ! p" by simp_all
  with assms have "i = p" by (simp add: nth_eq_iff_index_eq)
  with i show ?thesis by (simp add: pos_of_def)
qed

lemma distance_loop_sum:
  assumes "n \<noteq> 0"
    and "\<forall>(p, t) \<in> set ps. t \<noteq> bv \<longrightarrow> positions t = Some (f t)"
  shows "distance_loop ps (Some n) bv positions acc =
           Inr (acc + (\<Sum>(p, t) \<leftarrow> ps. if t \<noteq> bv then cell_dist n p (f t) else 0))"
  using assms(2)
proof (induction ps arbitrary: acc)
  case Nil
  then show ?case by simp
next
  case (Cons a ps)
  obtain p t where a: "a = (p, t)" by (cases a)
  from Cons.prems have rest: "\<forall>(p, t) \<in> set ps. t \<noteq> bv \<longrightarrow> positions t = Some (f t)"
    and hd: "t \<noteq> bv \<longrightarrow> positions t = Some (f t)"
    by (auto simp: a)
  show ?case
    using hd assms(1) Cons.IH [OF rest] by (simp add: a cell_dist_def Let_def)
qed

lemma sum_list_enumerate:
  "(\<Sum>(p, t) \<leftarrow> List.enumerate k xs. g p t) = (\<Sum>i<length xs. g (k + i) (xs ! i))"
proof (induction xs arbitrary: k)
  case Nil
  then show ?case by simp
next
  case (Cons x xs)
  have "(\<Sum>i<length (x # xs). g (k + i) ((x # xs) ! i)) =
        g k x + (\<Sum>i<length xs. g (Suc k + i) (xs ! i))"
    by (simp add: sum.lessThan_Suc_shift del: sum.lessThan_Suc)
  with Cons [of "Suc k"] show ?case by simp
qed

lemma sum_positions_tiles:
  assumes "distinct xs"
  shows "(\<Sum>i<length xs. G (xs ! i)) = (\<Sum>t \<in> set xs. G t)"
proof -
  have inj: "inj_on (\<lambda>i. xs ! i) {..<length xs}"
    using assms by (auto simp: inj_on_def nth_eq_iff_index_eq)
  have img: "(\<lambda>i. xs ! i) ` {..<length xs} = set xs"
    by (auto simp: in_set_conv_nth)
  have "(\<Sum>t \<in> (\<lambda>i. xs ! i) ` {..<length xs}. G t) = (\<Sum>i<length xs. G (xs ! i))"
    using inj by (simp add: sum.reindex)
  then show ?thesis by (simp add: img)
qed

lemma manhattan_distance_sum:
  assumes t1: "tile_list A = Some xs" and t2: "tile_list B = Some ys"
    and n: "size_st A = Some n" "n \<noteq> 0"
    and d1: "distinct xs" and d2: "distinct ys" and sub: "set xs \<subseteq> set ys"
  shows "manhattan_distance A B =
           Inr (\<Sum>t \<in> set xs. if t \<noteq> int (length xs) then cell_dist n (pos_of xs t) (pos_of ys t) else 0)"
proof -
  let ?bv = "int (length xs)"
  let ?pos = "build_positions (List.enumerate 0 ys) ?bv Map.empty"
  have look: "\<forall>(p, t) \<in> set (List.enumerate 0 xs). t \<noteq> ?bv \<longrightarrow> ?pos t = Some (pos_of ys t)"
  proof (clarify)
    fix p t
    assume "(p, t) \<in> set (List.enumerate 0 xs)" and ne: "t \<noteq> ?bv"
    then have "t \<in> set xs" by (auto simp: in_set_enumerate_eq)
    with sub have "t \<in> set ys" by blast
    then obtain q where q: "q < length ys" "ys ! q = t" by (auto simp: in_set_conv_nth)
    from build_positions_distinct [OF d2 q(1), of ?bv 0 Map.empty] ne q
    have "?pos t = Some q" by simp
    moreover have "pos_of ys t = q" using pos_of_nth [OF d2 q(1)] q(2) by simp
    ultimately show "?pos t = Some (pos_of ys t)" by simp
  qed
  have "manhattan_distance A B = distance_loop (List.enumerate 0 xs) (Some n) ?bv ?pos 0"
    by (simp add: manhattan_distance_def t1 t2 n Let_def)
  also have "\<dots> = Inr (0 + (\<Sum>(p, t) \<leftarrow> List.enumerate 0 xs.
                      if t \<noteq> ?bv then cell_dist n p (pos_of ys t) else 0))"
    by (rule distance_loop_sum [OF n(2) look])
  also have "(\<Sum>(p, t) \<leftarrow> List.enumerate 0 xs.
                if t \<noteq> ?bv then cell_dist n p (pos_of ys t) else 0) =
             (\<Sum>i<length xs. if xs ! i \<noteq> ?bv then cell_dist n i (pos_of ys (xs ! i)) else 0)"
    using sum_list_enumerate [of "\<lambda>p t. if t \<noteq> ?bv then cell_dist n p (pos_of ys t) else 0" 0 xs]
    by (simp cong: if_cong)
  also have "\<dots> = (\<Sum>i<length xs. if xs ! i \<noteq> ?bv
                      then cell_dist n (pos_of xs (xs ! i)) (pos_of ys (xs ! i)) else 0)"
    by (intro sum.cong refl) (simp add: pos_of_nth [OF d1])
  also have "\<dots> = (\<Sum>t \<in> set xs. if t \<noteq> ?bv then cell_dist n (pos_of xs t) (pos_of ys t) else 0)"
    by (rule sum_positions_tiles [OF d1])
  finally show ?thesis by simp
qed

lemma cell_dist_sym: "cell_dist n p q = cell_dist n q p"
  by (simp add: cell_dist_def abs_minus_commute)

text \<open>
  Claim C7: for two valid states of equal size the Manhattan distance is symmetric.
\<close>

theorem manhattan_distance_symmetric:
  assumes "valid_state A" "valid_state B" "size_st A = size_st B"
  shows "\<exists>d. manhattan_distance A B = Inr d \<and> manhattan_distance B A = Inr d"
proof -
  from assms(1) obtain n xs b where
    A: "size_st A = Some n" "tile_list A = Some xs"
    and n: "2 \<le> n" and dx: "distinct xs" and sx: "set xs = {1..n * n}"
    and lx: "length xs = nat (n * n)"
    by (rule valid_stateE)
  from assms(2) obtain m ys c where
    B: "size_st B = Some m" "tile_list B = Some ys"
    and dy: "distinct ys" and sy: "set ys = {1..m * m}"
    and ly: "length ys = nat (m * m)"
    by (rule valid_stateE)
  from assms(3) A(1) B(1) have mn: "m = n" by simp
  have n0: "n \<noteq> 0" using n by simp
  have sets: "set xs = set ys" using sx sy mn by simp
  have lens: "length xs = length ys" using lx ly mn by simp
  have ab: "manhattan_distance A B =
      Inr (\<Sum>t \<in> set xs. if t \<noteq> int (length xs) then cell_dist n (pos_of xs t) (pos_of ys t) else 0)"
    using sets by (intro manhattan_distance_sum [OF A(2) B(2) A(1) n0 dx dy]) simp
  have ba: "manhattan_distance B A =
      Inr (\<Sum>t \<in> set ys. if t \<noteq> int (length ys) then cell_dist n (pos_of ys t) (pos_of xs t) else 0)"
    using sets B(1) mn by (intro manhattan_distance_sum [OF B(2) A(2) _ n0 dy dx]) simp_all
  have "(\<Sum>t \<in> set ys. if t \<noteq> int (length ys) then cell_dist n (pos_of ys t) (pos_of xs t) else 0) =
        (\<Sum>t \<in> set xs. if t \<noteq> int (length xs) then cell_dist n (pos_of xs t) (pos_of ys t) else 0)"
    unfolding sets lens by (intro sum.cong refl) (simp add: cell_dist_sym)
  with ab ba show ?thesis by simp
qed

theorem manhattan_distance_symmetric_witness:
  "valid_state \<lparr>size_st = Some 2, tile_list = Some [2, 1, 3, 4], blank_pos = Some 3\<rparr> \<and>
   valid_state \<lparr>size_st = Some 2, tile_list = Some [1, 2, 3, 4], blank_pos = Some 3\<rparr> \<and>
   manhattan_distance
     \<lparr>size_st = Some 2, tile_list = Some [2, 1, 3, 4], blank_pos = Some 3\<rparr>
     \<lparr>size_st = Some 2, tile_list = Some [1, 2, 3, 4], blank_pos = Some 3\<rparr> = Inr 2 \<and>
   manhattan_distance
     \<lparr>size_st = Some 2, tile_list = Some [1, 2, 3, 4], blank_pos = Some 3\<rparr>
     \<lparr>size_st = Some 2, tile_list = Some [2, 1, 3, 4], blank_pos = Some 3\<rparr> = Inr 2"
proof -
  let ?A = "\<lparr>size_st = Some 2, tile_list = Some [2, 1, 3, 4], blank_pos = Some 3\<rparr>"
  let ?B = "\<lparr>size_st = Some 2, tile_list = Some [1, 2, 3, 4], blank_pos = Some 3\<rparr>"
  have a: "valid_state ?A" by (rule valid_state_example)
  have "set [1, 2, 3, 4 :: int] = {1..2 * 2}" by auto
  then have b: "valid_state ?B" by (simp add: valid_state_def)
  have e: "manhattan_distance ?A ?B = Inr 2"
    by (simp add: manhattan_distance_def Let_def)
  from manhattan_distance_symmetric [OF a b] obtain d where
    "manhattan_distance ?A ?B = Inr d" "manhattan_distance ?B ?A = Inr d" by auto
  with e have "manhattan_distance ?B ?A = Inr 2" by simp
  with a b e show ?thesis by blast
qed

section \<open>Properties of the test harness\<close>






section \<open>Properties of successor generation on the store\<close>

lemma move_blank_store_valid:
  assumes a: "a < length (state_objects h)"
    and obj: "state_objects h ! a = \<lparr>obj_size = Some n, obj_tile_list = Some l, obj_blank_pos = Some b\<rparr>"
    and l: "l < length (list_objects h)" and xs: "list_objects h ! l = xs"
    and n: "2 \<le> n" and len: "length xs = nat (n * n)"
    and b: "0 \<le> b" "b < n * n" and blank: "xs ! nat b = n * n"
  shows "move_blank_store h a d =
     (if in_field n b d
      then (Inr (Some (length (state_objects h))),
            h\<lparr>list_objects := list_objects h @ [swap_at xs (nat b) (nat (move_target n b d))],
              state_objects := state_objects h @
                [\<lparr>obj_size = Some n, obj_tile_list = Some (length (list_objects h)),
                  obj_blank_pos = Some (move_target n b d)\<rparr>]\<rparr>)
      else (Inr None, h))"
proof -
  obtain dx dy where d: "d = (dx, dy)" by (cases d)
  show ?thesis
  proof (cases "in_field n b d")
    case False
    then show ?thesis
      using obj n by (auto simp: move_blank_store_def d in_field_def attr_size_def attr_blank_pos_def Let_def)
  next
    case True
    define t where "t = move_target n b d"
    have t: "0 \<le> t" "t < n * n"
      using True cell_index_bounds [of "b div n + dx" n "b mod n + dy"]
      by (simp_all add: t_def move_target_def in_field_def d)
    have nn: "0 \<le> n * n" using n by simp
    have g: "py_getitem xs t = Inr (xs ! nat t)"
      using t len nn by (simp add: py_getitem_def py_norm_index_def)
    have s1: "py_setitem xs b (xs ! nat t) = Inr (xs[nat b := xs ! nat t])"
      using b len nn by (simp add: py_setitem_def py_norm_index_def)
    have s2: "py_setitem (xs[nat b := xs ! nat t]) t (n ^ 2) =
                Inr (xs[nat b := xs ! nat t, nat t := n ^ 2])"
      using t len nn by (simp add: py_setitem_def py_norm_index_def)
    have sw: "xs[nat b := xs ! nat t, nat t := n ^ 2] = swap_at xs (nat b) (nat t)"
      using blank by (simp add: swap_at_def power2_eq_square)
    have tt: "(b div n + dx) * n + (b mod n + dy) = t"
      by (simp add: t_def move_target_def d)
    have bs: "build_successor h a (b div n + dx) (b mod n + dy) =
            (Inr (length (state_objects h)),
             h\<lparr>list_objects := list_objects h @ [swap_at xs (nat b) (nat t)],
               state_objects := state_objects h @
                 [\<lparr>obj_size = Some n, obj_tile_list = Some (length (list_objects h)),
                   obj_blank_pos = Some t\<rparr>]\<rparr>)"
      using a obj l xs g s1 s2
      by (simp add: build_successor_def new_GemPuzzleState_def copy_list_def assign_tiles_def
          set_size_def set_tile_list_def set_blank_pos_def set_list_def
          attr_size_def attr_tile_list_def attr_blank_pos_def nth_append Let_def tt sw)
    show ?thesis
      using True obj n bs
      by (simp add: move_blank_store_def d in_field_def attr_size_def attr_blank_pos_def Let_def
          t_def)
  qed
qed

lemma successors_loop_store_valid:
  assumes a: "a < length (state_objects h)"
    and obj: "state_objects h ! a = \<lparr>obj_size = Some n, obj_tile_list = Some l, obj_blank_pos = Some b\<rparr>"
    and l: "l < length (list_objects h)" and xs: "list_objects h ! l = xs"
    and n: "2 \<le> n" and len: "length xs = nat (n * n)"
    and b: "0 \<le> b" "b < n * n" and blank: "xs ! nat b = n * n"
  shows "\<exists>new h'. successors_loop_store h a ds acc = (Inr (acc @ new), h') \<and>
      (\<exists>ls. list_objects h' = list_objects h @ ls) \<and>
      (\<exists>ss. state_objects h' = state_objects h @ ss) \<and>
      (\<forall>r \<in> set new. length (state_objects h) \<le> r \<and> r < length (state_objects h') \<and>
         (\<exists>l'. attr_tile_list h' r = Some l' \<and> length (list_objects h) \<le> l' \<and>
               l' < length (list_objects h'))) \<and>
      distinct new \<and> distinct (map (attr_tile_list h') new) \<and>
      map (state_at h') new = map (moved_state n xs b) (filter (in_field n b) ds)"
  using a obj l xs
proof (induction ds arbitrary: h acc)
  case Nil
  then show ?case by simp
next
  case (Cons d ds)
  note step = move_blank_store_valid [OF Cons.prems n len b blank, of d]
  show ?case
  proof (cases "in_field n b d")
    case False
    from Cons.IH [OF Cons.prems, of acc] False step show ?thesis by simp
  next
    case True
    let ?r0 = "length (state_objects h)" and ?l0 = "length (list_objects h)"
    let ?o = "\<lparr>obj_size = Some n, obj_tile_list = Some ?l0,
               obj_blank_pos = Some (move_target n b d)\<rparr>"
    let ?sw = "swap_at xs (nat b) (nat (move_target n b d))"
    let ?h1 = "h\<lparr>list_objects := list_objects h @ [?sw], state_objects := state_objects h @ [?o]\<rparr>"
    have s: "move_blank_store h a d = (Inr (Some ?r0), ?h1)" using step True by simp
    have p1: "a < length (state_objects ?h1)"
      "state_objects ?h1 ! a = \<lparr>obj_size = Some n, obj_tile_list = Some l, obj_blank_pos = Some b\<rparr>"
      "l < length (list_objects ?h1)" "list_objects ?h1 ! l = xs"
      using Cons.prems by (simp_all add: nth_append)
    from Cons.IH [OF p1, of "acc @ [?r0]"] obtain new h' where
      run: "successors_loop_store ?h1 a ds (acc @ [?r0]) = (Inr ((acc @ [?r0]) @ new), h')"
      and ext: "\<exists>ls. list_objects h' = list_objects ?h1 @ ls"
        "\<exists>ss. state_objects h' = state_objects ?h1 @ ss"
      and fresh: "\<forall>r \<in> set new. length (state_objects ?h1) \<le> r \<and> r < length (state_objects h') \<and>
         (\<exists>l'. attr_tile_list h' r = Some l' \<and> length (list_objects ?h1) \<le> l' \<and>
               l' < length (list_objects h'))"
      and dist: "distinct new" "distinct (map (attr_tile_list h') new)"
      and view: "map (state_at h') new = map (moved_state n xs b) (filter (in_field n b) ds)"
      by blast
    from ext obtain ls ss where
      ls: "list_objects h' = list_objects h @ ?sw # ls"
      and ss: "state_objects h' = state_objects h @ ?o # ss"
      by auto
    have o0: "state_objects h' ! ?r0 = ?o" and l0: "list_objects h' ! ?l0 = ?sw"
      by (simp_all add: ls ss)
    have at0: "attr_tile_list h' ?r0 = Some ?l0" by (simp add: attr_tile_list_def o0)
    have v0: "state_at h' ?r0 = moved_state n xs b d"
      by (simp add: state_at_def attr_size_def attr_tile_list_def attr_blank_pos_def o0 l0
          moved_state_def)
    have res: "successors_loop_store h a (d # ds) acc = (Inr (acc @ ?r0 # new), h')"
      using s run by simp
    have e1: "\<exists>ls. list_objects h' = list_objects h @ ls" using ls by blast
    have e2: "\<exists>ss. state_objects h' = state_objects h @ ss" using ss by blast
    have f0: "length (state_objects h) \<le> ?r0 \<and> ?r0 < length (state_objects h') \<and>
         (\<exists>l'. attr_tile_list h' ?r0 = Some l' \<and> length (list_objects h) \<le> l' \<and>
               l' < length (list_objects h'))"
      using at0 by (simp add: ls ss)
    have f1: "length (state_objects h) \<le> r \<and> r < length (state_objects h') \<and>
         (\<exists>l'. attr_tile_list h' r = Some l' \<and> length (list_objects h) \<le> l' \<and>
               l' < length (list_objects h'))" if "r \<in> set new" for r
      using fresh that by fastforce
    have n0: "?r0 \<notin> set new" using fresh by fastforce
    have n1: "Some ?l0 \<notin> set (map (attr_tile_list h') new)"
    proof
      assume "Some ?l0 \<in> set (map (attr_tile_list h') new)"
      then obtain r where r: "r \<in> set new" "attr_tile_list h' r = Some ?l0" by auto
      from fresh r(1) obtain l' where "attr_tile_list h' r = Some l'" "length (list_objects ?h1) \<le> l'"
        by blast
      with r(2) show False by simp
    qed
    have d1: "distinct (?r0 # new)" using n0 dist(1) by simp
    have d2: "distinct (map (attr_tile_list h') (?r0 # new))" using n1 dist(2) at0 by simp
    have vw: "map (state_at h') (?r0 # new) =
                map (moved_state n xs b) (filter (in_field n b) (d # ds))"
      using True v0 view by simp
    have fr: "\<forall>r \<in> set (?r0 # new). length (state_objects h) \<le> r \<and> r < length (state_objects h') \<and>
         (\<exists>l'. attr_tile_list h' r = Some l' \<and> length (list_objects h) \<le> l' \<and>
               l' < length (list_objects h'))"
      using f0 f1 by auto
    from res e1 e2 fr d1 d2 vw show ?thesis by blast
  qed
qed

text \<open>
  Claim C8: for a valid state in the store, the successor generator leaves the input object
  and its tile list as they were (as it leaves every object that existed before the call):
  tile sequence, size and blank position are the same after the call. Every successor it
  returns is a new object with a new tile list of its own, and read as values the successors
  are those of \<open>get_successors\<close>.
\<close>

theorem get_successors_store_frame:
  assumes "state < length (state_objects h)"
    and "attr_tile_list h state = Some l" "l < length (list_objects h)"
    and "valid_state (state_at h state)"
  shows "\<exists>rs h'. get_successors_store h state = (Inr rs, h') \<and>
      take (length (list_objects h)) (list_objects h') = list_objects h \<and>
      take (length (state_objects h)) (state_objects h') = state_objects h \<and>
      state_at h' state = state_at h state \<and>
      (\<forall>r \<in> set rs. length (state_objects h) \<le> r \<and> r < length (state_objects h') \<and>
         (\<exists>l'. attr_tile_list h' r = Some l' \<and> length (list_objects h) \<le> l' \<and>
               l' < length (list_objects h'))) \<and>
      distinct rs \<and> distinct (map (attr_tile_list h') rs) \<and>
      get_successors (state_at h state) = Inr (map (state_at h') rs)"
proof -
  from assms(4) obtain n xs b where
    st: "size_st (state_at h state) = Some n" "tile_list (state_at h state) = Some xs"
      "blank_pos (state_at h state) = Some b"
    and n: "2 \<le> n" and len: "length xs = nat (n * n)"
    and b: "0 \<le> b" "b < n * n" and blank: "xs ! nat b = n * n"
    by (rule valid_stateE)
  from st assms(2) have xs: "list_objects h ! l = xs"
    and sz: "attr_size h state = Some n" and bp: "attr_blank_pos h state = Some b"
    by (simp_all add: state_at_def)
  have obj: "state_objects h ! state =
               \<lparr>obj_size = Some n, obj_tile_list = Some l, obj_blank_pos = Some b\<rparr>"
    using sz bp assms(2) by (simp add: attr_size_def attr_blank_pos_def attr_tile_list_def)
  from successors_loop_store_valid [OF assms(1) obj assms(3) xs n len b blank, of delta "[]"]
  obtain rs h' where
    run: "successors_loop_store h state delta [] = (Inr ([] @ rs), h')"
    and ext: "\<exists>ls. list_objects h' = list_objects h @ ls"
      "\<exists>ss. state_objects h' = state_objects h @ ss"
    and fresh: "\<forall>r \<in> set rs. length (state_objects h) \<le> r \<and> r < length (state_objects h') \<and>
         (\<exists>l'. attr_tile_list h' r = Some l' \<and> length (list_objects h) \<le> l' \<and>
               l' < length (list_objects h'))"
    and dist: "distinct rs" "distinct (map (attr_tile_list h') rs)"
    and view: "map (state_at h') rs = map (moved_state n xs b) (filter (in_field n b) delta)"
    by blast
  from ext obtain ls ss where
    ls: "list_objects h' = list_objects h @ ls" and ss: "state_objects h' = state_objects h @ ss"
    by blast
  have res: "get_successors_store h state = (Inr rs, h')"
    using run by (simp add: get_successors_store_def)
  have t1: "take (length (list_objects h)) (list_objects h') = list_objects h"
    and t2: "take (length (state_objects h)) (state_objects h') = state_objects h"
    by (simp_all add: ls ss)
  have same: "state_at h' state = state_at h state"
    using assms(1,2,3)
    by (simp add: state_at_def attr_size_def attr_tile_list_def attr_blank_pos_def ls ss nth_append)
  have pure: "get_successors (state_at h state) = Inr (map (state_at h') rs)"
    using get_successors_valid [OF st n len b blank] view by simp
  from res t1 t2 same fresh dist pure show ?thesis by blast
qed

theorem get_successors_store_frame_witness:
  "valid_state (state_at example_store 0) \<and>
   get_successors_store example_store 0 =
     (Inr [1, 2],
      \<lparr>list_objects = [[2, 1, 3, 4], [2, 1, 4, 3], [2, 4, 3, 1]],
       state_objects =
         [\<lparr>obj_size = Some 2, obj_tile_list = Some 0, obj_blank_pos = Some 3\<rparr>,
          \<lparr>obj_size = Some 2, obj_tile_list = Some 1, obj_blank_pos = Some 2\<rparr>,
          \<lparr>obj_size = Some 2, obj_tile_list = Some 2, obj_blank_pos = Some 1\<rparr>]\<rparr>) \<and>
   (\<exists>rs h'. get_successors_store example_store 0 = (Inr rs, h') \<and>
      take (length (list_objects example_store)) (list_objects h') = list_objects example_store \<and>
      take (length (state_objects example_store)) (state_objects h') = state_objects example_store \<and>
      state_at h' 0 = state_at example_store 0 \<and>
      distinct rs \<and> distinct (map (attr_tile_list h') rs) \<and>
      get_successors (state_at example_store 0) = Inr (map (state_at h') rs))"
proof -
  have sa: "state_at example_store 0 =
              \<lparr>size_st = Some 2, tile_list = Some [2, 1, 3, 4], blank_pos = Some 3\<rparr>"
    by (simp add: state_at_def example_store_def attr_size_def attr_tile_list_def attr_blank_pos_def)
  have v: "valid_state (state_at example_store 0)"
    unfolding sa by (rule valid_state_example)
  have a: "0 < length (state_objects example_store)"
    and t: "attr_tile_list example_store 0 = Some 0"
    and l: "0 < length (list_objects example_store)"
    by (simp_all add: example_store_def attr_tile_list_def)
  have e: "get_successors_store example_store 0 =
     (Inr [1, 2],
      \<lparr>list_objects = [[2, 1, 3, 4], [2, 1, 4, 3], [2, 4, 3, 1]],
       state_objects =
         [\<lparr>obj_size = Some 2, obj_tile_list = Some 0, obj_blank_pos = Some 3\<rparr>,
          \<lparr>obj_size = Some 2, obj_tile_list = Some 1, obj_blank_pos = Some 2\<rparr>,
          \<lparr>obj_size = Some 2, obj_tile_list = Some 2, obj_blank_pos = Some 1\<rparr>]\<rparr>)"
    by (simp add: get_successors_store_def delta_def move_blank_store_def build_successor_def
        assign_tiles_def new_GemPuzzleState_def copy_list_def set_size_def set_tile_list_def
        set_blank_pos_def set_list_def attr_size_def attr_tile_list_def attr_blank_pos_def
        py_getitem_def py_setitem_def py_norm_index_def example_store_def Let_def)
  from get_successors_store_frame [OF a t l v]
  have "\<exists>rs h'. get_successors_store example_store 0 = (Inr rs, h') \<and>
      take (length (list_objects example_store)) (list_objects h') = list_objects example_store \<and>
      take (length (state_objects example_store)) (state_objects h') = state_objects example_store \<and>
      state_at h' 0 = state_at example_store 0 \<and>
      distinct rs \<and> distinct (map (attr_tile_list h') rs) \<and>
      get_successors (state_at example_store 0) = Inr (map (state_at h') rs)"
    by blast
  with v e show ?thesis by blast
qed

end
